theory Spec2Isabelle
  imports Main
begin

section \<open>Data model of \<open>student_code.py\<close>\<close>

text \<open>
  A \<open>SortableDigraph\<close> object has three dictionaries.  The adjacency dictionary \<open>adj\<close> is
  iterated in insertion order (\<open>keys()\<close>, \<open>items()\<close>), so it is an association list whose
  order is the insertion order of the keys.  \<open>node_data\<close> and \<open>edge_weights\<close> are only ever
  looked up, so they are maps.  Python's \<open>None\<close> as a payload or a weight is the \<open>None\<close> of
  an option type.  Node identifiers are the values of the type \<open>'a\<close>, which may itself be
  an option type: \<open>add_node\<close> and \<open>add_edge\<close> take Python's \<open>None\<close> as an identifier like
  any other.  Recursion is unbounded, as if the interpreter had no recursion limit.
\<close>

record ('a, 'd, 'w) digraph =
  adj :: "('a \<times> 'a list) list"
  node_data :: "'a \<rightharpoonup> 'd option"
  edge_weights :: "('a \<times> 'a) \<rightharpoonup> 'w option"

text \<open>\<open>__init__\<close>: three empty dictionaries.\<close>

definition empty_graph :: "('a, 'd, 'w) digraph" where
  "empty_graph = \<lparr> adj = [], node_data = Map.empty, edge_weights = Map.empty \<rparr>"

text \<open>\<open>node in self.adj\<close>.\<close>

definition known :: "('a, 'd, 'w) digraph \<Rightarrow> 'a \<Rightarrow> bool" where
  "known g node = (map_of (adj g) node \<noteq> None)"

text \<open>\<open>self.adj.get(node, [])\<close>, the lookup every traversal uses.\<close>

definition adj_get :: "('a, 'd, 'w) digraph \<Rightarrow> 'a \<Rightarrow> 'a list" where
  "adj_get g node = (case map_of (adj g) node of None \<Rightarrow> [] | Some vs \<Rightarrow> vs)"

text \<open>\<open>self.adj[u].append(v)\<close>: the list stored under the key \<open>u\<close> grows at its end.\<close>

fun adj_append :: "('a \<times> 'a list) list \<Rightarrow> 'a \<Rightarrow> 'a \<Rightarrow> ('a \<times> 'a list) list" where
  "adj_append [] u v = []"
| "adj_append ((k, vs) # rest) u v =
     (if k = u then (k, vs @ [v]) # rest else (k, vs) # adj_append rest u v)"

definition add_node :: "('a, 'd, 'w) digraph \<Rightarrow> 'a \<Rightarrow> 'd option \<Rightarrow> ('a, 'd, 'w) digraph" where
  "add_node g node data =
     (if \<not> known g node
      then g\<lparr> adj := adj g @ [(node, [])], node_data := (node_data g)(node \<mapsto> data) \<rparr>
      else g)"

definition add_edge ::
  "('a, 'd, 'w) digraph \<Rightarrow> 'a \<Rightarrow> 'a \<Rightarrow> 'w option \<Rightarrow> ('a, 'd, 'w) digraph" where
  "add_edge g u v edge_weight =
     (let g1 = add_node g u None;
          g2 = add_node g1 v None
      in g2\<lparr> adj := adj_append (adj g2) u v,
             edge_weights := (edge_weights g2)((u, v) \<mapsto> edge_weight) \<rparr>)"

definition get_node_value :: "('a, 'd, 'w) digraph \<Rightarrow> 'a \<Rightarrow> 'd option" where
  "get_node_value g node = (case node_data g node of None \<Rightarrow> None | Some d \<Rightarrow> d)"

definition get_edge_weight :: "('a, 'd, 'w) digraph \<Rightarrow> 'a \<Rightarrow> 'a \<Rightarrow> 'w option" where
  "get_edge_weight g u v = (case edge_weights g (u, v) of None \<Rightarrow> None | Some w \<Rightarrow> w)"

definition successors :: "('a, 'd, 'w) digraph \<Rightarrow> 'a \<Rightarrow> 'a list" where
  "successors g node = adj_get g node"

text \<open>\<open>predecessors\<close>: one scan of \<open>adj.items()\<close>, one entry per key whose list holds the node.\<close>

definition predecessors :: "('a, 'd, 'w) digraph \<Rightarrow> 'a \<Rightarrow> 'a list" where
  "predecessors g node = map fst (filter (\<lambda>(u, neighbors). node \<in> set neighbors) (adj g))"

definition get_nodes :: "('a, 'd, 'w) digraph \<Rightarrow> 'a list" where
  "get_nodes g = map fst (adj g)"

subsection \<open>The edge relation and the nodes of a graph\<close>

definition edges :: "('a, 'd, 'w) digraph \<Rightarrow> ('a \<times> 'a) set" where
  "edges g = {(u, v). v \<in> set (adj_get g u)}"

definition nodes_of :: "('a, 'd, 'w) digraph \<Rightarrow> 'a set" where
  "nodes_of g = fst ` set (adj g) \<union> (\<Union>(u, vs) \<in> set (adj g). set vs)"

subsection \<open>The order in which the recursive searches terminate\<close>

text \<open>
  Every recursive search of the source (\<open>_has_path\<close>, \<open>visit\<close> of \<open>topsort\<close>, \<open>dfs\<close>) calls
  itself only on a node it has just put into its \<open>visited\<close> set, and its \<open>for\<close> loop walks a
  finite list.  A call is ranked by the nodes not yet visited, a tag and the length of
  the list still to walk.
\<close>

definition search_order :: "(('a set \<times> nat \<times> nat) \<times> ('a set \<times> nat \<times> nat)) set" where
  "search_order = finite_psubset <*lex*> less_than <*lex*> less_than"

definition call_rank :: "('a, 'd, 'w) digraph \<Rightarrow> 'a \<Rightarrow> 'a set \<Rightarrow> nat \<Rightarrow> 'a set \<times> nat \<times> nat" where
  "call_rank g s V t = (insert s (nodes_of g) - V, t, 0)"

definition loop_rank :: "('a, 'd, 'w) digraph \<Rightarrow> 'a list \<Rightarrow> 'a set \<Rightarrow> 'a set \<times> nat \<times> nat" where
  "loop_rank g ns V = ((nodes_of g \<union> set ns) - V, 1, length ns)"

lemma finite_nodes_of: "finite (nodes_of g)"
  by (auto simp: nodes_of_def)

lemma adj_get_nodes_of: "set (adj_get g n) \<subseteq> nodes_of g"
proof
  fix x assume "x \<in> set (adj_get g n)"
  then obtain vs where "map_of (adj g) n = Some vs" "x \<in> set vs"
    by (cases "map_of (adj g) n") (auto simp: adj_get_def)
  then have "(n, vs) \<in> set (adj g)" by (simp add: map_of_SomeD)
  with \<open>x \<in> set vs\<close> show "x \<in> nodes_of g" by (auto simp: nodes_of_def)
qed

lemma wf_search_order: "wf search_order"
  by (auto simp: search_order_def)

lemma search_order_step:
  assumes "finite A" "A' \<subseteq> A" "A' = A \<Longrightarrow> t' < t \<or> (t' = t \<and> n' < n)"
  shows "((A', t', n'), (A, t, n)) \<in> search_order"
  using assms by (cases "A' = A") (auto simp: finite_psubset_def search_order_def)

lemma rank_enter_loop:
  "s \<notin> V \<or> 1 < t \<Longrightarrow> (loop_rank g (adj_get g s) (insert s V), call_rank g s V t) \<in> search_order"
  unfolding loop_rank_def call_rank_def
  using adj_get_nodes_of[of g s] finite_nodes_of[of g]
  by (intro search_order_step) auto

lemma rank_loop_call:
  "(call_rank g n V 0, loop_rank g (n # ns) V) \<in> search_order"
  unfolding loop_rank_def call_rank_def
  using finite_nodes_of[of g]
  by (intro search_order_step) auto

lemma rank_loop_next:
  "V \<subseteq> V' \<Longrightarrow> (loop_rank g ns V', loop_rank g (n # ns) V) \<in> search_order"
  unfolding loop_rank_def
  using finite_nodes_of[of g]
  by (intro search_order_step) auto

section \<open>\<open>DAG._has_path\<close>\<close>

text \<open>
  The recursive search shares one mutable \<open>visited\<close> set between all calls, so the model
  returns the set together with the answer.  \<open>has_path_loop\<close> is the \<open>for neighbor\<close> loop of
  one call, with its early \<open>return True\<close>.
\<close>

function has_path ::
    "('a, 'd, 'w) digraph \<Rightarrow> 'a \<Rightarrow> 'a \<Rightarrow> 'a set \<Rightarrow> bool \<times> 'a set"
  and has_path_loop ::
    "('a, 'd, 'w) digraph \<Rightarrow> 'a list \<Rightarrow> 'a \<Rightarrow> 'a set \<Rightarrow> bool \<times> 'a set"
where
  "has_path g start en visited =
     (if start = en then (True, visited)
      else has_path_loop g (adj_get g start) en (insert start visited))"
| "has_path_loop g [] en visited = (False, visited)"
| "has_path_loop g (neighbor # rest) en visited =
     (if neighbor \<notin> visited
      then (case has_path g neighbor en visited of
              (True, visited') \<Rightarrow> (True, visited')
            | (False, visited') \<Rightarrow> has_path_loop g rest en visited')
      else has_path_loop g rest en visited)"
  by pat_completeness auto

lemma has_path_dom_mono:
  "has_path_has_path_loop_dom (Inl (g, s, e, V)) \<Longrightarrow> V \<subseteq> snd (has_path g s e V)"
  "has_path_has_path_loop_dom (Inr (g, ns, e, V)) \<Longrightarrow> V \<subseteq> snd (has_path_loop g ns e V)"
proof (induct g s e V and g ns e V rule: has_path_has_path_loop.pinduct)
  case (1 g start en visited)
  then show ?case by (auto simp: has_path.psimps)
next
  case (2 g en visited)
  then show ?case by (simp add: has_path_loop.psimps)
next
  case (3 g neighbor rest en visited)
  show ?case
  proof (cases "neighbor \<in> visited")
    case True
    with 3 show ?thesis by (simp add: has_path_loop.psimps)
  next
    case False
    obtain b V' where r: "has_path g neighbor en visited = (b, V')"
      by (cases "has_path g neighbor en visited")
    with 3(2)[OF False] have sub: "visited \<subseteq> V'" by simp
    show ?thesis
    proof (cases b)
      case True
      with 3(1) False r sub show ?thesis by (simp add: has_path_loop.psimps)
    next
      case nb: False
      from 3(3)[OF \<open>neighbor \<notin> visited\<close> r[symmetric]] nb
      have "V' \<subseteq> snd (has_path_loop g rest en V')" by simp
      with 3(1) \<open>neighbor \<notin> visited\<close> r sub nb show ?thesis
        by (auto simp add: has_path_loop.psimps)
    qed
  qed
qed

termination has_path
proof (relation "inv_image search_order
    (\<lambda>x. case x of
        Inl (g, s, e, V) \<Rightarrow> call_rank g s V (if s \<in> V then 2 else 0)
      | Inr (g, ns, e, V) \<Rightarrow> loop_rank g ns V)", goal_cases)
  case 1
  show ?case by (simp add: wf_search_order)
next
  case (2 g start en visited)
  show ?case by (simp add: rank_enter_loop)
next
  case (3 g neighbor rest en visited)
  then show ?case by (simp add: rank_loop_call)
next
  case (4 g neighbor rest en visited b y)
  then have "visited \<subseteq> y"
    using has_path_dom_mono(1)[of g neighbor en visited] by (metis snd_conv)
  then show ?case by (simp add: rank_loop_next)
next
  case (5 g neighbor rest en visited)
  show ?case by (simp add: rank_loop_next)
qed

section \<open>\<open>SortableDigraph.topsort\<close>\<close>

text \<open>
  The nested function \<open>visit\<close> mutates the two local variables \<open>visited\<close> and \<open>result\<close>
  of \<open>topsort\<close>; the model passes the pair along.  \<open>visit_loop\<close> is a \<open>for\<close> loop that calls
  \<open>visit\<close> on each element of a list: the loop over the successors inside \<open>visit\<close>, and the
  loop over \<open>list(self.adj.keys())\<close> in the body of \<open>topsort\<close>.
\<close>

function visit ::
    "('a, 'd, 'w) digraph \<Rightarrow> 'a \<Rightarrow> 'a set \<times> 'a list \<Rightarrow> 'a set \<times> 'a list"
  and visit_loop ::
    "('a, 'd, 'w) digraph \<Rightarrow> 'a list \<Rightarrow> 'a set \<times> 'a list \<Rightarrow> 'a set \<times> 'a list"
where
  "visit g node (visited, result) =
     (if node \<in> visited then (visited, result)
      else (case visit_loop g (adj_get g node) (insert node visited, result) of
              (visited', result') \<Rightarrow> (visited', result' @ [node])))"
| "visit_loop g [] st = st"
| "visit_loop g (neighbor # rest) st = visit_loop g rest (visit g neighbor st)"
  by pat_completeness auto

lemma visit_dom_mono:
  "visit_visit_loop_dom (Inl (g, n, st)) \<Longrightarrow> fst st \<subseteq> fst (visit g n st)"
  "visit_visit_loop_dom (Inr (g, ns, st)) \<Longrightarrow> fst st \<subseteq> fst (visit_loop g ns st)"
proof (induct g n st and g ns st rule: visit_visit_loop.pinduct)
  case (1 g node visited result)
  then show ?case by (auto simp: visit.psimps split: prod.splits)
next
  case (2 g st)
  then show ?case by (simp add: visit_loop.psimps)
next
  case (3 g neighbor rest st)
  then show ?case by (auto simp: visit_loop.psimps)
qed

termination visit
proof (relation "inv_image search_order
    (\<lambda>x. case x of
        Inl (g, n, st) \<Rightarrow> call_rank g n (fst st) 0
      | Inr (g, ns, st) \<Rightarrow> loop_rank g ns (fst st))", goal_cases)
  case 1
  show ?case by (simp add: wf_search_order)
next
  case (2 g node visited result)
  then show ?case by (simp add: rank_enter_loop)
next
  case (3 g neighbor rest st)
  show ?case by (simp add: rank_loop_call)
next
  case (4 g neighbor rest st)
  then have "fst st \<subseteq> fst (visit g neighbor st)" by (rule visit_dom_mono(1))
  then show ?case by (simp add: rank_loop_next)
qed

declare visit.simps [simp del]

definition topsort :: "('a, 'd, 'w) digraph \<Rightarrow> 'a list" where
  "topsort g = rev (snd (visit_loop g (map fst (adj g)) ({}, [])))"

definition top_sort :: "('a, 'd, 'w) digraph \<Rightarrow> 'a list" where
  "top_sort g = topsort g"

section \<open>\<open>TraversableDigraph.dfs\<close> and \<open>bfs\<close>\<close>

text \<open>
  \<open>dfs\<close> and \<open>bfs\<close> test their \<open>start\<close> argument against \<open>None\<close>.  For them a node
  identifier is a value of the type \<open>'a option\<close> whose \<open>None\<close> is Python's \<open>None\<close>: a
  \<open>start\<close> that is \<open>None\<close> is the omitted argument, whether or not \<open>None\<close> is also a node of
  the graph.
\<close>

text \<open>
  The first key of \<open>adj\<close>, \<open>next(iter(self.adj.keys()))\<close>, which the source reads only
  after it has tested that \<open>adj\<close> is not empty.
\<close>

fun first_key :: "('a, 'd, 'w) digraph \<Rightarrow> 'a option" where
  "first_key g = (case adj g of [] \<Rightarrow> None | (k, vs) # rest \<Rightarrow> Some k)"

text \<open>
  The block \<open>if start is None: ...\<close> at the head of \<open>dfs\<close>: the node to start from, or
  \<open>None\<close> where the source returns because the graph is empty.
\<close>

definition default_start ::
  "('a option, 'd, 'w) digraph \<Rightarrow> 'a option \<Rightarrow> 'a option option" where
  "default_start g start = (case start of None \<Rightarrow> first_key g | Some x \<Rightarrow> Some start)"

text \<open>The block \<open>if visited is None: visited = set()\<close>.\<close>

definition default_visited :: "'a set option \<Rightarrow> 'a set" where
  "default_visited visited = (case visited of None \<Rightarrow> {} | Some V \<Rightarrow> V)"

text \<open>
  \<open>dfs\<close> is a generator; the model returns the list of the values it yields, in order,
  together with the shared \<open>visited\<close> set.  \<open>dfs_gen\<close> is the whole body of \<open>dfs\<close>, with both
  tests against \<open>None\<close>; \<open>dfs_loop\<close> is its \<open>for neighbor\<close> loop, and its recursive call
  \<open>self.dfs(neighbor, visited)\<close> enters \<open>dfs_gen\<close> again, so a neighbor that is \<open>None\<close> is
  taken for the omitted argument.
\<close>

function dfs_gen ::
    "('a option, 'd, 'w) digraph \<Rightarrow> 'a option \<Rightarrow> 'a option set option \<Rightarrow>
       'a option list \<times> 'a option set"
  and dfs_loop ::
    "('a option, 'd, 'w) digraph \<Rightarrow> 'a option list \<Rightarrow> 'a option set \<Rightarrow>
       'a option list \<times> 'a option set"
where
  "dfs_gen g start visited =
     (case default_start g start of
        None \<Rightarrow> ([], default_visited visited)
      | Some s \<Rightarrow>
          (if s \<in> default_visited visited then ([], default_visited visited)
           else dfs_loop g (adj_get g s) (insert s (default_visited visited))))"
| "dfs_loop g [] visited = ([], visited)"
| "dfs_loop g (neighbor # rest) visited =
     (if neighbor \<notin> visited
      then (case dfs_gen g neighbor (Some visited) of
              (ys, visited') \<Rightarrow>
                (case dfs_loop g rest visited' of
                   (zs, visited'') \<Rightarrow> (neighbor # ys @ zs, visited'')))
      else dfs_loop g rest visited)"
  by pat_completeness auto

lemma dfs_dom_mono:
  "dfs_gen_dfs_loop_dom (Inl (g, s, vis)) \<Longrightarrow> default_visited vis \<subseteq> snd (dfs_gen g s vis)"
  "dfs_gen_dfs_loop_dom (Inr (g, ns, V)) \<Longrightarrow> V \<subseteq> snd (dfs_loop g ns V)"
proof (induct g s vis and g ns V rule: dfs_gen_dfs_loop.pinduct)
  case (1 g start visited)
  then show ?case by (auto simp: dfs_gen.psimps split: option.splits)
next
  case (2 g visited)
  then show ?case by (simp add: dfs_loop.psimps)
next
  case (3 g neighbor rest visited)
  show ?case
  proof (cases "neighbor \<in> visited")
    case True
    with 3 show ?thesis by (simp add: dfs_loop.psimps)
  next
    case False
    obtain ys V' where r: "dfs_gen g neighbor (Some visited) = (ys, V')"
      by (cases "dfs_gen g neighbor (Some visited)")
    with 3(2)[OF False] have sub: "visited \<subseteq> V'" by (simp add: default_visited_def)
    from 3(3)[OF False r[symmetric]] have "V' \<subseteq> snd (dfs_loop g rest V')" .
    with 3(1) False r sub show ?thesis
      by (auto simp: dfs_loop.psimps split: prod.splits)
  qed
qed

lemma default_start_node:
  "default_start g n = Some s \<Longrightarrow> s = n \<or> s \<in> nodes_of g"
  by (cases n; cases "adj g") (auto simp: default_start_def nodes_of_def)

lemma rank_loop_restart:
  "s = n \<or> s \<in> nodes_of g \<Longrightarrow> (call_rank g s V 0, loop_rank g (n # ns) V) \<in> search_order"
  unfolding loop_rank_def call_rank_def
  using finite_nodes_of[of g]
  by (intro search_order_step) auto

lemma rank_loop_return:
  "(({}, 0, 0), loop_rank g (n # ns) V) \<in> search_order"
  unfolding loop_rank_def
  using finite_nodes_of[of g]
  by (intro search_order_step) auto

termination dfs_gen
proof (relation "inv_image search_order
    (\<lambda>x. case x of
        Inl (g, start, vis) \<Rightarrow>
          (case default_start g start of
             None \<Rightarrow> ({}, 0, 0)
           | Some s \<Rightarrow> call_rank g s (default_visited vis) 0)
      | Inr (g, ns, V) \<Rightarrow> loop_rank g ns V)", goal_cases)
  case 1
  show ?case by (simp add: wf_search_order)
next
  case (2 g start visited s)
  then show ?case by (simp add: rank_enter_loop)
next
  case (3 g neighbor rest visited)
  show ?case
  proof (cases "default_start g neighbor")
    case None
    then show ?thesis by (simp add: rank_loop_return)
  next
    case (Some s)
    with default_start_node[OF Some] show ?thesis
      by (simp add: rank_loop_restart default_visited_def)
  qed
next
  case (4 g neighbor rest visited ys y)
  then have "visited \<subseteq> y"
    using dfs_dom_mono(1)[of g neighbor "Some visited"]
    by (metis default_visited_def option.simps(5) snd_conv)
  then show ?case by (simp add: rank_loop_next)
next
  case (5 g neighbor rest visited)
  show ?case by (simp add: rank_loop_next)
qed

declare dfs_gen.simps [simp del]

definition dfs ::
  "('a option, 'd, 'w) digraph \<Rightarrow> 'a option \<Rightarrow> 'a option set option \<Rightarrow> 'a option list" where
  "dfs g start visited = fst (dfs_gen g start visited)"

text \<open>
  \<open>bfs_enqueue\<close> is the \<open>for neighbor\<close> loop of \<open>bfs\<close>, \<open>bfs_loop\<close> its \<open>while queue\<close> loop; the
  queue is a list, \<open>popleft\<close> takes its head and \<open>append\<close> adds at its end.
\<close>

fun bfs_enqueue :: "'a list \<Rightarrow> 'a set \<Rightarrow> 'a list \<Rightarrow> 'a set \<times> 'a list" where
  "bfs_enqueue [] visited queue = (visited, queue)"
| "bfs_enqueue (neighbor # rest) visited queue =
     (if neighbor \<notin> visited
      then bfs_enqueue rest (insert neighbor visited) (queue @ [neighbor])
      else bfs_enqueue rest visited queue)"

lemma bfs_enqueue_grows:
  "bfs_enqueue ns V q = (V', q') \<Longrightarrow>
     V \<subseteq> V' \<and> V' \<subseteq> V \<union> set ns \<and> (V' = V \<longrightarrow> q' = q)"
proof (induction ns V q rule: bfs_enqueue.induct)
  case (1 visited queue)
  then show ?case by simp
next
  case (2 neighbor rest visited queue)
  then show ?case by (auto split: if_splits)
qed

function bfs_loop ::
    "('a, 'd, 'w) digraph \<Rightarrow> 'a list \<Rightarrow> 'a set \<Rightarrow> bool \<Rightarrow> 'a list" where
  "bfs_loop g [] visited first = []"
| "bfs_loop g (node # queue) visited first =
     (case bfs_enqueue (adj_get g node) visited queue of
        (visited', queue') \<Rightarrow>
          (if \<not> first then [node] else []) @ bfs_loop g queue' visited' False)"
  by pat_completeness auto

termination bfs_loop
proof (relation "inv_image (finite_psubset <*lex*> less_than)
    (\<lambda>(g, queue, visited, first). (nodes_of g - visited, length queue))", goal_cases)
  case 1
  show ?case by auto
next
  case (2 g node queue visited first V' q')
  then have grow: "visited \<subseteq> V'" "V' \<subseteq> visited \<union> set (adj_get g node)"
      "V' = visited \<longrightarrow> q' = queue"
    using bfs_enqueue_grows[of "adj_get g node" visited queue V' q'] by auto
  have sub: "nodes_of g - V' \<subseteq> nodes_of g - visited" using grow(1) by auto
  show ?case
  proof (cases "nodes_of g - V' = nodes_of g - visited")
    case True
    with grow adj_get_nodes_of[of g node] have "V' = visited" by auto
    with grow(3) True show ?thesis by simp
  next
    case False
    with sub have "nodes_of g - V' \<subset> nodes_of g - visited" by auto
    then show ?thesis using finite_nodes_of[of g] by (simp add: finite_psubset_def)
  qed
qed

definition bfs :: "('a option, 'd, 'w) digraph \<Rightarrow> 'a option \<Rightarrow> 'a option list" where
  "bfs g start =
     (case first_key g of
        None \<Rightarrow> []
      | Some k \<Rightarrow>
          (let s = (case start of None \<Rightarrow> k | Some x \<Rightarrow> start)
           in bfs_loop g [s] {s} True))"

section \<open>\<open>DAG.add_edge\<close>\<close>

text \<open>
  \<open>raise ValueError(...)\<close> is the only way a call of the library fails.  The error carries
  the rejected pair, which the source formats into its message.  A call on a graph
  object returns the outcome together with the state the object is left in.
\<close>

datatype 'a error = ValueError 'a 'a

definition dag_add_edge ::
  "('a, 'd, 'w) digraph \<Rightarrow> 'a \<Rightarrow> 'a \<Rightarrow> 'w option \<Rightarrow> ('a error + unit) \<times> ('a, 'd, 'w) digraph" where
  "dag_add_edge g u v edge_weight =
     (if fst (has_path g v u {}) then (Inl (ValueError u v), g)
      else (Inr (), add_edge g u v edge_weight))"

text \<open>
  A client of a \<open>DAG\<close> object: a sequence of \<open>add_node\<close> and \<open>add_edge\<close> calls.  The
  first call that raises ends the sequence, as the exception does.
\<close>

datatype ('a, 'd, 'w) call = Add_node 'a "'d option" | Add_edge 'a 'a "'w option"

fun dag_call ::
  "('a, 'd, 'w) digraph \<Rightarrow> ('a, 'd, 'w) call \<Rightarrow> ('a error + unit) \<times> ('a, 'd, 'w) digraph" where
  "dag_call g (Add_node node data) = (Inr (), add_node g node data)"
| "dag_call g (Add_edge u v edge_weight) = dag_add_edge g u v edge_weight"

fun dag_calls ::
  "('a, 'd, 'w) digraph \<Rightarrow> ('a, 'd, 'w) call list \<Rightarrow> ('a error + unit) \<times> ('a, 'd, 'w) digraph" where
  "dag_calls g [] = (Inr (), g)"
| "dag_calls g (c # cs) =
     (case dag_call g c of
        (Inl e, g') \<Rightarrow> (Inl e, g')
      | (Inr u, g') \<Rightarrow> dag_calls g' cs)"

section \<open>Correctness of the reachability search\<close>

text \<open>
  What a failed search has done to \<open>visited\<close>: it has only grown, it never took in the
  node searched for, and every node it took in has all its successors in it.
\<close>

definition explored :: "('a, 'd, 'w) digraph \<Rightarrow> 'a \<Rightarrow> 'a set \<Rightarrow> 'a set \<Rightarrow> bool" where
  "explored g e V V' =
     (V \<subseteq> V' \<and> e \<notin> V' - V \<and> (\<forall>x \<in> V' - V. \<forall>y. (x, y) \<in> edges g \<longrightarrow> y \<in> V'))"

lemma explored_refl: "explored g e V V"
  by (simp add: explored_def)

lemma explored_trans: "explored g e V V1 \<Longrightarrow> explored g e V1 V2 \<Longrightarrow> explored g e V V2"
  unfolding explored_def by blast

lemma explored_enter:
  assumes "explored g e (insert s V) V'" "set (adj_get g s) \<subseteq> V'" "s \<noteq> e"
  shows "explored g e V V'"
  using assms unfolding explored_def edges_def by auto

lemma has_path_sound:
  "fst (has_path g s e V) \<Longrightarrow> (s, e) \<in> (edges g)\<^sup>*"
  "fst (has_path_loop g ns e V) \<Longrightarrow> \<exists>n \<in> set ns. (n, e) \<in> (edges g)\<^sup>*"
proof (induct g s e V and g ns e V rule: has_path_has_path_loop.induct)
  case (1 g start en visited)
  show ?case
  proof (cases "start = en")
    case True
    then show ?thesis by simp
  next
    case False
    with 1 obtain n where "n \<in> set (adj_get g start)" "(n, en) \<in> (edges g)\<^sup>*" by auto
    then show ?thesis by (auto simp: edges_def intro: converse_rtrancl_into_rtrancl)
  qed
next
  case (2 g en visited)
  then show ?case by simp
next
  case (3 g neighbor rest en visited)
  then show ?case
    by (cases "has_path g neighbor en visited") (auto split: if_splits bool.splits)
qed

lemma has_path_explores:
  "\<not> fst (has_path g s e V) \<Longrightarrow>
     s \<in> snd (has_path g s e V) \<and> explored g e V (snd (has_path g s e V))"
  "\<not> fst (has_path_loop g ns e V) \<Longrightarrow>
     set ns \<subseteq> snd (has_path_loop g ns e V) \<and> explored g e V (snd (has_path_loop g ns e V))"
proof (induct g s e V and g ns e V rule: has_path_has_path_loop.induct)
  case (1 g start en visited)
  then have ne: "start \<noteq> en" by (auto split: if_splits)
  let ?V' = "snd (has_path_loop g (adj_get g start) en (insert start visited))"
  from 1 ne have sub: "set (adj_get g start) \<subseteq> ?V'" and ex: "explored g en (insert start visited) ?V'"
    by auto
  from ex have "start \<in> ?V'" by (auto simp: explored_def)
  moreover have "explored g en visited ?V'" using explored_enter[OF ex sub ne] .
  ultimately show ?case using ne by simp
next
  case (2 g en visited)
  then show ?case by (simp add: explored_refl)
next
  case (3 g neighbor rest en visited)
  show ?case
  proof (cases "neighbor \<in> visited")
    case True
    with 3 have "set rest \<subseteq> snd (has_path_loop g rest en visited)"
      "explored g en visited (snd (has_path_loop g rest en visited))" by auto
    with True show ?thesis by (auto simp: explored_def)
  next
    case False
    obtain b V1 where r: "has_path g neighbor en visited = (b, V1)"
      by (cases "has_path g neighbor en visited")
    with 3(4) False have nb: "\<not> b" by (auto split: bool.splits)
    with 3(4) False r have nl: "\<not> fst (has_path_loop g rest en V1)" by simp
    from 3(1)[OF False] r nb have a: "neighbor \<in> V1" "explored g en visited V1" by auto
    from 3(2)[OF False r[symmetric]] nb nl
    have b: "set rest \<subseteq> snd (has_path_loop g rest en V1)"
      "explored g en V1 (snd (has_path_loop g rest en V1))" by auto
    from b(2) have "V1 \<subseteq> snd (has_path_loop g rest en V1)" by (simp add: explored_def)
    with a b explored_trans[OF a(2) b(2)] False r nb show ?thesis by auto
  qed
qed

lemma explored_unreachable:
  assumes "explored g e {} V'" "s \<in> V'"
  shows "(s, e) \<notin> (edges g)\<^sup>*"
proof
  assume "(s, e) \<in> (edges g)\<^sup>*"
  then have "e \<in> V'"
    by (induction rule: rtrancl_induct) (use assms in \<open>auto simp: explored_def\<close>)
  with assms show False by (simp add: explored_def)
qed

lemma has_path_correct: "fst (has_path g s e {}) \<longleftrightarrow> (s, e) \<in> (edges g)\<^sup>*"
  using has_path_sound(1)[of g s e "{}"] has_path_explores(1)[of g s e "{}"]
    explored_unreachable[of g e "snd (has_path g s e {})" s]
  by blast

text \<open>From here on the searches are unfolded only where a proof asks for it.\<close>

declare has_path.simps [simp del]

section \<open>What the insertions do to the adjacency\<close>

lemma known_add_node: "known (add_node g n d) x \<longleftrightarrow> x = n \<or> known g x"
  by (auto simp: add_node_def known_def map_of_append map_add_def split: option.splits)

lemma adj_get_add_node: "adj_get (add_node g n d) x = adj_get g x"
  by (auto simp: add_node_def known_def adj_get_def map_of_append map_add_def split: option.splits)

lemma edges_add_node: "edges (add_node g n d) = edges g"
  by (simp add: edges_def adj_get_add_node)

lemma map_of_adj_append:
  "map_of (adj_append xs u v) x =
     (if x = u then map_option (\<lambda>vs. vs @ [v]) (map_of xs u) else map_of xs x)"
  by (induction xs u v rule: adj_append.induct) auto

lemma adj_get_add_edge:
  "adj_get (add_edge g u v w) x = (if x = u then adj_get g u @ [v] else adj_get g x)"
proof -
  have k: "known (add_node (add_node g u None) v None) u"
    by (simp add: known_add_node)
  then obtain vs where vs: "map_of (adj (add_node (add_node g u None) v None)) u = Some vs"
    by (auto simp: known_def)
  then have "adj_get (add_node (add_node g u None) v None) u = vs" by (simp add: adj_get_def)
  then have "adj_get g u = vs" by (simp add: adj_get_add_node)
  moreover have "x \<noteq> u \<Longrightarrow> adj_get (add_edge g u v w) x = adj_get g x"
    using adj_get_add_node[of "add_node g u None" v None x] adj_get_add_node[of g u None x]
    by (simp add: add_edge_def Let_def adj_get_def map_of_adj_append)
  ultimately show ?thesis using vs
    by (simp add: add_edge_def Let_def adj_get_def map_of_adj_append)
qed

lemma edges_add_edge: "edges (add_edge g u v w) = insert (u, v) (edges g)"
  by (auto simp: edges_def adj_get_add_edge split: if_splits)

lemma edges_empty_graph: "edges empty_graph = {}"
  by (simp add: edges_def adj_get_def empty_graph_def)

section \<open>Insertions into a \<open>DAG\<close> keep it acyclic\<close>

lemma dag_add_edge_acyclic:
  assumes "acyclic (edges g)" "dag_add_edge g u v w = (Inr (), g')"
  shows "acyclic (edges g')"
proof -
  from assms(2) have np: "\<not> fst (has_path g v u {})" and g': "g' = add_edge g u v w"
    by (auto simp: dag_add_edge_def split: if_splits)
  from np have "(v, u) \<notin> (edges g)\<^sup>*" by (simp add: has_path_correct)
  with assms(1) show ?thesis by (simp add: g' edges_add_edge acyclic_insert)
qed

lemma dag_call_acyclic:
  "acyclic (edges g) \<Longrightarrow> dag_call g c = (Inr (), g') \<Longrightarrow> acyclic (edges g')"
  by (cases c) (auto simp: edges_add_node dag_add_edge_acyclic)

lemma dag_calls_acyclic:
  "acyclic (edges g) \<Longrightarrow> dag_calls g cs = (Inr (), g') \<Longrightarrow> acyclic (edges g')"
proof (induction cs arbitrary: g)
  case Nil
  then show ?case by simp
next
  case (Cons c cs)
  obtain r g1 where c: "dag_call g c = (r, g1)" by (cases "dag_call g c")
  with Cons.prems(2) have "r = Inr ()" and rest: "dag_calls g1 cs = (Inr (), g')"
    by (cases r; simp)+
  with c Cons.prems(1) have "acyclic (edges g1)" by (auto dest: dag_call_acyclic)
  then show ?case using rest by (rule Cons.IH)
qed

section \<open>The invariant of the adjacency dictionary\<close>

text \<open>
  The keys of a dictionary are distinct, and \<open>add_edge\<close> makes a key of every node it puts
  into a successor list.  Every graph that the insertions build from the empty one has
  both properties.
\<close>

definition invar :: "('a, 'd, 'w) digraph \<Rightarrow> bool" where
  "invar g =
     (distinct (map fst (adj g)) \<and> (\<forall>(u, vs) \<in> set (adj g). set vs \<subseteq> fst ` set (adj g)))"

lemma known_iff_key: "known g n \<longleftrightarrow> n \<in> fst ` set (adj g)"
  by (simp add: known_def map_of_eq_None_iff)

lemma invar_empty_graph: "invar empty_graph"
  by (simp add: invar_def empty_graph_def)

lemma invar_add_node: "invar g \<Longrightarrow> invar (add_node g n d)"
  unfolding invar_def add_node_def using known_iff_key[of g n] by auto

lemma keys_adj_append: "map fst (adj_append xs u v) = map fst xs"
  by (induction xs u v rule: adj_append.induct) auto

lemma set_adj_append:
  "(k, vs) \<in> set (adj_append xs u v) \<Longrightarrow>
     (k, vs) \<in> set xs \<or> (k = u \<and> (\<exists>vs'. (u, vs') \<in> set xs \<and> vs = vs' @ [v]))"
  by (induction xs u v rule: adj_append.induct) (auto split: if_splits)

lemma invar_add_edge:
  assumes "invar g"
  shows "invar (add_edge g u v w)"
proof -
  let ?g2 = "add_node (add_node g u None) v None"
  have i2: "invar ?g2" using assms by (simp add: invar_add_node)
  have kv: "v \<in> fst ` set (adj ?g2)" using known_add_node[of "add_node g u None" v None v]
    by (simp add: known_iff_key)
  have keys: "map fst (adj (add_edge g u v w)) = map fst (adj ?g2)"
    by (simp add: add_edge_def Let_def keys_adj_append)
  then have keys': "fst ` set (adj (add_edge g u v w)) = fst ` set (adj ?g2)"
    by (metis list.set_map)
  have succ: "set vs \<subseteq> fst ` set (adj ?g2)" if "(k, vs) \<in> set (adj (add_edge g u v w))" for k vs
  proof -
    from that have "(k, vs) \<in> set (adj_append (adj ?g2) u v)" by (simp add: add_edge_def Let_def)
    from set_adj_append[OF this]
    consider "(k, vs) \<in> set (adj ?g2)"
      | vs' where "(u, vs') \<in> set (adj ?g2)" "vs = vs' @ [v]" by blast
    then show ?thesis
    proof cases
      case 1
      with i2 show ?thesis unfolding invar_def by blast
    next
      case 2
      with i2 have "set vs' \<subseteq> fst ` set (adj ?g2)" unfolding invar_def by blast
      with 2 kv show ?thesis by simp
    qed
  qed
  have "distinct (map fst (adj (add_edge g u v w)))" using i2 keys by (simp add: invar_def)
  moreover have "\<forall>(k, vs) \<in> set (adj (add_edge g u v w)).
      set vs \<subseteq> fst ` set (adj (add_edge g u v w))"
    using succ keys' by blast
  ultimately show ?thesis by (simp add: invar_def)
qed

lemma count_keys_filter:
  "distinct (map fst xs) \<Longrightarrow>
     count_list (map fst (filter P xs)) u =
       (case map_of xs u of None \<Rightarrow> 0 | Some vs \<Rightarrow> if P (u, vs) then 1 else 0)"
proof (induction xs)
  case Nil
  then show ?case by simp
next
  case (Cons x xs)
  obtain k vs where x: "x = (k, vs)" by (cases x)
  show ?case
  proof (cases "k = u")
    case True
    with Cons.prems x have "u \<notin> fst ` set xs" by auto
    then have "count_list (map fst (filter P xs)) u = 0"
      by (auto simp: count_list_0_iff)
    with True x show ?thesis by simp
  next
    case False
    with Cons x show ?thesis by simp
  qed
qed

lemma map_of_adj_add_edge:
  "map_of (adj (add_edge g u v w)) u = Some (adj_get g u @ [v])"
proof -
  have "known (add_node (add_node g u None) v None) u" by (simp add: known_add_node)
  then have "known (add_edge g u v w) u"
    by (simp add: known_def add_edge_def Let_def map_of_adj_append)
  then show ?thesis using adj_get_add_edge[of g u v w u]
    by (auto simp: known_def adj_get_def)
qed

text \<open>A \<open>DAG\<close> inserts through the same two operations, so its graphs have them as well.\<close>

lemma invar_dag_call: "invar g \<Longrightarrow> invar (snd (dag_call g c))"
  by (cases c) (simp_all add: invar_add_node invar_add_edge dag_add_edge_def)

lemma invar_dag_calls: "invar g \<Longrightarrow> invar (snd (dag_calls g cs))"
proof (induction cs arbitrary: g)
  case Nil
  then show ?case by simp
next
  case (Cons c cs)
  obtain r g1 where c: "dag_call g c = (r, g1)" by (cases "dag_call g c")
  with invar_dag_call[OF Cons.prems, of c] have "invar g1" by simp
  with Cons.IH[of g1] c show ?case by (cases r) simp_all
qed

section \<open>What \<open>topsort\<close> computes\<close>

text \<open>
  The state of \<open>topsort\<close> is the pair of \<open>visited\<close> and \<open>result\<close>.  The nodes that are visited
  but not yet in \<open>result\<close> are the nodes whose \<open>visit\<close> is still running; a call of \<open>visit\<close>
  returns with the same pending nodes it was entered with, and only adds at the end of
  \<open>result\<close>.
\<close>

definition frame_inv :: "'a set \<times> 'a list \<Rightarrow> bool" where
  "frame_inv st = (set (snd st) \<subseteq> fst st \<and> distinct (snd st))"

definition pending :: "'a set \<times> 'a list \<Rightarrow> 'a set" where
  "pending st = fst st - set (snd st)"

definition visit_post ::
  "('a, 'd, 'w) digraph \<Rightarrow> 'a set \<Rightarrow> 'a set \<times> 'a list \<Rightarrow> 'a set \<times> 'a list \<Rightarrow> bool" where
  "visit_post g ns st st' =
     (frame_inv st' \<and> pending st' = pending st \<and> fst st \<union> ns \<subseteq> fst st' \<and>
      fst st' \<subseteq> fst st \<union> ns \<union> nodes_of g \<and> (\<exists>new. snd st' = snd st @ new))"

lemma visit_post_known: "frame_inv st \<Longrightarrow> n \<in> fst st \<Longrightarrow> visit_post g {n} st st"
  by (auto simp: visit_post_def)

lemma visit_post_finish:
  assumes "frame_inv (V, res)" "n \<notin> V" "visit_post g (set (adj_get g n)) (insert n V, res) (V', res')"
  shows "visit_post g {n} (V, res) (V', res' @ [n])"
proof -
  from assms(1,2) have nres: "n \<notin> set res" by (auto simp: frame_inv_def)
  from assms(3) have f: "frame_inv (V', res')" and p: "V' - set res' = insert n V - set res"
    and sub: "insert n V \<subseteq> V'" and up: "V' \<subseteq> insert n V \<union> set (adj_get g n) \<union> nodes_of g"
    and pre: "\<exists>new. res' = res @ new"
    by (auto simp: visit_post_def pending_def)
  from p nres have n': "n \<in> V'" "n \<notin> set res'" by auto
  have "frame_inv (V', res' @ [n])" using f n' by (auto simp: frame_inv_def)
  moreover have "pending (V', res' @ [n]) = pending (V, res)"
    using p assms(2) nres by (auto simp: pending_def)
  moreover have "V' \<subseteq> V \<union> {n} \<union> nodes_of g" using up adj_get_nodes_of[of g n] by auto
  ultimately show ?thesis using sub pre by (auto simp: visit_post_def)
qed

lemma visit_post_step:
  assumes "visit_post g {n} st st1" "visit_post g (set ns) st1 st2"
  shows "visit_post g (set (n # ns)) st st2"
  using assms unfolding visit_post_def by auto

lemma visit_frame:
  "frame_inv st \<Longrightarrow> visit_post g {n} st (visit g n st)"
  "frame_inv st \<Longrightarrow> visit_post g (set ns) st (visit_loop g ns st)"
proof (induct g n st and g ns st rule: visit_visit_loop.induct)
  case (1 g node visited result)
  show ?case
  proof (cases "node \<in> visited")
    case True
    with 1(2) show ?thesis by (simp add: visit.simps visit_post_known)
  next
    case False
    obtain V' res' where r: "visit_loop g (adj_get g node) (insert node visited, result) = (V', res')"
      by (cases "visit_loop g (adj_get g node) (insert node visited, result)")
    from 1(2) have "frame_inv (insert node visited, result)" by (auto simp: frame_inv_def)
    from 1(1)[OF False this] r
    have "visit_post g (set (adj_get g node)) (insert node visited, result) (V', res')" by simp
    from visit_post_finish[OF 1(2) False this] False r show ?thesis by (simp add: visit.simps)
  qed
next
  case (2 g st)
  then show ?case by (auto simp: visit_post_def)
next
  case (3 g neighbor rest st)
  from 3(1)[OF 3(3)] have a: "visit_post g {neighbor} st (visit g neighbor st)" .
  then have "frame_inv (visit g neighbor st)" by (simp add: visit_post_def)
  from 3(2)[OF this] visit_post_step[OF a] show ?case by simp
qed

lemma visit_loop_top:
  "visit_post g (set ns) ({}, []) (visit_loop g ns ({}, []))"
  by (rule visit_frame(2)) (simp add: frame_inv_def)

lemma topsort_distinct: "distinct (topsort g)"
  using visit_loop_top[of g "map fst (adj g)"]
  by (simp add: topsort_def visit_post_def frame_inv_def)

lemma topsort_set:
  "fst ` set (adj g) \<subseteq> set (topsort g) \<and> set (topsort g) \<subseteq> nodes_of g"
proof -
  let ?st = "visit_loop g (map fst (adj g)) ({}, [])"
  from visit_loop_top[of g "map fst (adj g)"]
  have "set (snd ?st) \<subseteq> fst ?st" "fst ?st - set (snd ?st) = {}"
    "fst ` set (adj g) \<subseteq> fst ?st" "fst ?st \<subseteq> fst ` set (adj g) \<union> nodes_of g"
    by (auto simp: visit_post_def frame_inv_def pending_def)
  then show ?thesis by (auto simp: topsort_def nodes_of_def)
qed

lemma invar_nodes_of: "invar g \<Longrightarrow> nodes_of g = fst ` set (adj g)"
  by (auto simp: invar_def nodes_of_def)

text \<open>
  On an acyclic graph every node enters \<open>result\<close> after all its successors.  The graph
  being acyclic is what makes a visited successor a finished one: a pending node reaches
  the node being visited, so it cannot be one of its successors.
\<close>

definition finished_order :: "('a, 'd, 'w) digraph \<Rightarrow> 'a list \<Rightarrow> bool" where
  "finished_order g res = (\<forall>ps x qs. res = ps @ x # qs \<longrightarrow> set (adj_get g x) \<subseteq> set ps)"

lemma finished_order_Nil: "finished_order g []"
  by (simp add: finished_order_def)

lemma finished_order_snoc:
  assumes "finished_order g res" "set (adj_get g n) \<subseteq> set res"
  shows "finished_order g (res @ [n])"
  unfolding finished_order_def
proof (intro allI impI)
  fix ps x qs assume eq: "res @ [n] = ps @ x # qs"
  show "set (adj_get g x) \<subseteq> set ps"
  proof (cases qs rule: rev_cases)
    case Nil
    with eq assms(2) show ?thesis by simp
  next
    case (snoc qs' y)
    with eq have "res = ps @ x # qs'" by simp
    with assms(1) show ?thesis by (auto simp: finished_order_def)
  qed
qed

lemma visit_order:
  "acyclic (edges g) \<Longrightarrow> frame_inv st \<Longrightarrow> finished_order g (snd st) \<Longrightarrow>
     (\<forall>x \<in> pending st. (x, n) \<in> (edges g)\<^sup>+) \<Longrightarrow>
     finished_order g (snd (visit g n st)) \<and> n \<in> set (snd (visit g n st))"
  "acyclic (edges g) \<Longrightarrow> frame_inv st \<Longrightarrow> finished_order g (snd st) \<Longrightarrow>
     (\<forall>x \<in> pending st. \<forall>n \<in> set ns. (x, n) \<in> (edges g)\<^sup>+) \<Longrightarrow>
     finished_order g (snd (visit_loop g ns st)) \<and> set ns \<subseteq> set (snd (visit_loop g ns st))"
proof (induct g n st and g ns st rule: visit_visit_loop.induct)
  case (1 g node visited result)
  show ?case
  proof (cases "node \<in> visited")
    case True
    have "node \<notin> pending (visited, result)"
    proof
      assume "node \<in> pending (visited, result)"
      with 1(5) have "(node, node) \<in> (edges g)\<^sup>+" by blast
      with 1(2) show False by (simp add: acyclic_def)
    qed
    with True have "node \<in> set result" by (simp add: pending_def)
    with True 1(4) show ?thesis by (simp add: visit.simps)
  next
    case False
    let ?st = "(insert node visited, result)"
    obtain V' res' where r: "visit_loop g (adj_get g node) ?st = (V', res')"
      by (cases "visit_loop g (adj_get g node) ?st")
    from 1(3) have f: "frame_inv ?st" by (auto simp: frame_inv_def)
    have reach: "\<forall>x \<in> pending ?st. \<forall>m \<in> set (adj_get g node). (x, m) \<in> (edges g)\<^sup>+"
    proof (intro ballI)
      fix x m assume x: "x \<in> pending ?st" and m: "m \<in> set (adj_get g node)"
      from m have e: "(node, m) \<in> edges g" by (simp add: edges_def)
      show "(x, m) \<in> (edges g)\<^sup>+"
      proof (cases "x = node")
        case True
        with e show ?thesis by auto
      next
        case False
        with x have "x \<in> pending (visited, result)" by (auto simp: pending_def)
        with 1(5) have "(x, node) \<in> (edges g)\<^sup>+" by blast
        then show ?thesis using e by (rule trancl_into_trancl)
      qed
    qed
    from 1(1)[OF False 1(2) f _ reach] 1(4) r
    have "finished_order g res'" "set (adj_get g node) \<subseteq> set res'" by auto
    then have "finished_order g (res' @ [node])" by (rule finished_order_snoc)
    with False r show ?thesis by (simp add: visit.simps)
  qed
next
  case (2 g st)
  then show ?case by simp
next
  case (3 g neighbor rest st)
  let ?st1 = "visit g neighbor st"
  from 3(6) have r1: "\<forall>x \<in> pending st. (x, neighbor) \<in> (edges g)\<^sup>+" by simp
  from 3(1)[OF 3(3,4,5) r1]
  have o1: "finished_order g (snd ?st1)" and n1: "neighbor \<in> set (snd ?st1)" by auto
  from visit_frame(1)[OF 3(4), of g neighbor]
  have f1: "frame_inv ?st1" and p1: "pending ?st1 = pending st"
    by (auto simp: visit_post_def)
  from 3(6) p1 have r2: "\<forall>x \<in> pending ?st1. \<forall>n \<in> set rest. (x, n) \<in> (edges g)\<^sup>+" by simp
  from 3(2)[OF 3(3) f1 o1 r2]
  have o2: "finished_order g (snd (visit_loop g rest ?st1))"
    and n2: "set rest \<subseteq> set (snd (visit_loop g rest ?st1))" by auto
  from visit_frame(2)[OF f1, of g rest] obtain new where
    "snd (visit_loop g rest ?st1) = snd ?st1 @ new" by (auto simp: visit_post_def)
  with n1 have "neighbor \<in> set (snd (visit_loop g rest ?st1))" by simp
  with o2 n2 show ?case by simp
qed

text \<open>\<open>list.index\<close>: the position of the first occurrence, if there is one.\<close>

fun position :: "'a list \<Rightarrow> 'a \<Rightarrow> nat option" where
  "position [] x = None"
| "position (y # ys) x = (if y = x then Some 0 else map_option Suc (position ys x))"

lemma position_None: "position xs x = None \<longleftrightarrow> x \<notin> set xs"
  by (induction xs) auto

lemma position_append:
  "position (xs @ ys) x =
     (if x \<in> set xs then position xs x else map_option (\<lambda>i. length xs + i) (position ys x))"
proof (induction xs)
  case Nil
  show ?case by (cases "position ys x") auto
next
  case (Cons y xs)
  then show ?case by (cases "position ys x") auto
qed

lemma position_split:
  assumes "distinct (ps @ u # qs)" "v \<in> set qs"
  shows "\<exists>j. position (ps @ u # qs) u = Some (length ps) \<and>
             position (ps @ u # qs) v = Some j \<and> length ps < j"
proof -
  from assms obtain k where k: "position qs v = Some k"
    by (cases "position qs v") (auto simp: position_None)
  from assms have "u \<notin> set ps" "v \<notin> set ps" "v \<noteq> u" by auto
  with k show ?thesis by (simp add: position_append)
qed

lemma topsort_order:
  assumes "acyclic (edges g)" "(u, v) \<in> edges g"
  shows "\<exists>i j. position (topsort g) u = Some i \<and> position (topsort g) v = Some j \<and> i < j"
proof -
  let ?st = "visit_loop g (map fst (adj g)) ({}, [])"
  have f0: "frame_inv ({}, [])" by (simp add: frame_inv_def)
  have "finished_order g (snd ?st)"
    using visit_order(2)[OF assms(1) f0, of "map fst (adj g)"]
    by (simp add: finished_order_Nil pending_def)
  moreover from assms(2) have "adj_get g u \<noteq> []" by (auto simp: edges_def)
  then have "known g u" by (auto simp: adj_get_def known_def split: option.splits)
  then have "u \<in> set (topsort g)" using topsort_set[of g] by (auto simp: known_iff_key)
  then have "u \<in> set (snd ?st)" by (simp add: topsort_def)
  then obtain ps qs where split: "snd ?st = ps @ u # qs" by (auto simp: in_set_conv_decomp)
  ultimately have "set (adj_get g u) \<subseteq> set ps" by (auto simp: finished_order_def)
  with assms(2) have v: "v \<in> set (rev ps)" by (auto simp: edges_def)
  have ts: "topsort g = rev qs @ u # rev ps" by (simp add: topsort_def split)
  with topsort_distinct[of g] have "distinct (rev qs @ u # rev ps)" by simp
  from position_split[OF this v] ts show ?thesis by auto
qed

section \<open>What the traversals yield\<close>





section \<open>Concrete graphs\<close>

text \<open>The graphs of the demo at the end of the source file, and two smaller ones.\<close>

definition dressing :: "(string, unit, unit) call list" where
  "dressing =
     [Add_edge ''shirt'' ''tie'' None, Add_edge ''shirt'' ''belt'' None,
      Add_edge ''tie'' ''jacket'' None, Add_edge ''belt'' ''jacket'' None,
      Add_edge ''pants'' ''shoes'' None, Add_edge ''pants'' ''belt'' None,
      Add_edge ''socks'' ''shoes'' None]"

definition shirt_tie :: "(string, unit, unit) digraph" where
  "shirt_tie = add_edge empty_graph ''shirt'' ''tie'' None"

definition one_node :: "(string, nat, unit) digraph" where
  "one_node = add_node empty_graph ''A'' (Some 1)"

definition a_to_b :: "(string, unit, nat) digraph" where
  "a_to_b = add_edge empty_graph ''A'' ''B'' (Some 1)"

definition diamond :: "(string option, unit, unit) digraph" where
  "diamond =
     add_edge (add_edge (add_edge (add_edge empty_graph
       (Some ''A'') (Some ''B'') None) (Some ''A'') (Some ''C'') None)
       (Some ''B'') (Some ''D'') None) (Some ''C'') (Some ''D'') None"


definition dressed :: "(string, unit, unit) digraph" where
  "dressed = snd (dag_calls empty_graph dressing)"

definition two_cycle :: "(string, unit, unit) digraph" where
  "two_cycle = add_edge (add_edge empty_graph ''A'' ''B'' None) ''B'' ''A'' None"

text \<open>The equations that evaluate the operations on a concrete graph.\<close>

lemmas eval_ops = dag_add_edge_def add_edge_def add_node_def known_def adj_get_def
  empty_graph_def has_path.simps

lemma dressing_runs:
  "fst (dag_calls empty_graph dressing) = Inr () \<and>
   adj (snd (dag_calls empty_graph dressing)) =
     [(''shirt'', [''tie'', ''belt'']), (''tie'', [''jacket'']), (''belt'', [''jacket'']),
      (''jacket'', []), (''pants'', [''shoes'', ''belt'']), (''shoes'', []),
      (''socks'', [''shoes''])]"
  by (simp add: dressing_def eval_ops)

lemma adj_diamond:
  "adj diamond =
     [(Some ''A'', [Some ''B'', Some ''C'']), (Some ''B'', [Some ''D'']),
      (Some ''C'', [Some ''D'']), (Some ''D'', [])]"
  by (simp add: diamond_def eval_ops)


text \<open>The equations that evaluate the traversals on a concrete graph.\<close>

lemmas eval_traversals = dfs_def bfs_def dfs_gen.simps default_start_def default_visited_def
  adj_get_def

lemma adj_dressed:
  "adj dressed =
     [(''shirt'', [''tie'', ''belt'']), (''tie'', [''jacket'']), (''belt'', [''jacket'']),
      (''jacket'', []), (''pants'', [''shoes'', ''belt'']), (''shoes'', []),
      (''socks'', [''shoes''])]"
  using dressing_runs by (simp add: dressed_def)

lemma acyclic_dressed: "acyclic (edges dressed)"
proof -
  have "acyclic (edges (empty_graph :: (string, unit, unit) digraph))"
    by (simp add: edges_empty_graph acyclic_def)
  moreover have "dag_calls empty_graph dressing = (Inr (), dressed)"
    using dressing_runs by (simp add: dressed_def prod_eq_iff)
  ultimately show ?thesis by (rule dag_calls_acyclic)
qed

lemma topsort_dressed:
  "topsort dressed =
     [''socks'', ''pants'', ''shoes'', ''shirt'', ''belt'', ''tie'', ''jacket'']"
  by (simp add: topsort_def adj_dressed adj_get_def visit.simps)

lemma adj_two_cycle: "adj two_cycle = [(''A'', [''B'']), (''B'', [''A''])]"
  by (simp add: two_cycle_def eval_ops)

section \<open>The specified properties\<close>

text \<open>
  C1.  Starting from the empty graph, every sequence of \<open>add_node\<close> and \<open>add_edge\<close> calls on
  a \<open>DAG\<close> in which no call raises leaves a graph without a directed cycle: no node
  reaches itself along one or more edges.
\<close>

theorem dag_never_cyclic:
  "dag_calls empty_graph cs = (Inr (), g) \<Longrightarrow> \<forall>n. (n, n) \<notin> (edges g)\<^sup>+"
  using dag_calls_acyclic[of empty_graph cs g]
  by (simp add: edges_empty_graph acyclic_def)

theorem dag_never_cyclic_witness:
  "fst (dag_calls empty_graph dressing) = Inr () \<and>
   (\<forall>n. (n, n) \<notin> (edges (snd (dag_calls empty_graph dressing)))\<^sup>+)"
  using dag_never_cyclic[of dressing "snd (dag_calls empty_graph dressing)"] dressing_runs
  by (metis prod.collapse)

text \<open>
  C2.  \<open>DAG.add_edge(u, v, weight)\<close> raises the error naming the pair \<open>(u, v)\<close> exactly when
  the graph has a directed path of zero or more edges from \<open>v\<close> to \<open>u\<close>, and otherwise
  it succeeds; an edge from a node to itself is always rejected.
\<close>

theorem dag_add_edge_rejects_iff:
  "(fst (dag_add_edge g u v w) = Inl (ValueError u v)) = ((v, u) \<in> (edges g)\<^sup>*) \<and>
   (fst (dag_add_edge g u v w) = Inr ()) = ((v, u) \<notin> (edges g)\<^sup>*) \<and>
   fst (dag_add_edge g u u w) = Inl (ValueError u u)"
  using has_path_correct[of g v u] has_path_correct[of g u u]
  by (simp add: dag_add_edge_def)

theorem dag_add_edge_rejects_iff_witness:
  "fst (dag_add_edge shirt_tie ''tie'' ''shirt'' None) = Inl (ValueError ''tie'' ''shirt'') \<and>
   (''shirt'', ''tie'') \<in> (edges shirt_tie)\<^sup>* \<and>
   fst (dag_add_edge shirt_tie ''tie'' ''belt'' None) = Inr () \<and>
   (''belt'', ''tie'') \<notin> (edges shirt_tie)\<^sup>*"
proof -
  have "fst (dag_add_edge shirt_tie ''tie'' ''shirt'' None) = Inl (ValueError ''tie'' ''shirt'')"
    by (simp add: shirt_tie_def eval_ops)
  moreover have "fst (dag_add_edge shirt_tie ''tie'' ''belt'' None) = Inr ()"
    by (simp add: shirt_tie_def eval_ops)
  ultimately show ?thesis
    using dag_add_edge_rejects_iff[of shirt_tie "''tie''" "''shirt''" None]
      dag_add_edge_rejects_iff[of shirt_tie "''tie''" "''belt''" None]
    by simp
qed

text \<open>
  C3.  A rejected \<open>DAG.add_edge(u, v)\<close> leaves the graph in the state it had before the
  call.  After a successful \<open>add_edge(u, v)\<close> the attempt \<open>add_edge(v, u)\<close> is rejected with
  the error naming \<open>(v, u)\<close>, and the successors and predecessors of every node and the
  weight of every pair are what they were before the attempt.
\<close>

theorem dag_add_edge_atomic:
  "(fst (dag_add_edge g u v w) \<noteq> Inr () \<longrightarrow>
      fst (dag_add_edge g u v w) = Inl (ValueError u v) \<and> snd (dag_add_edge g u v w) = g) \<and>
   (fst (dag_add_edge g u v w) = Inr () \<longrightarrow>
      (let g1 = snd (dag_add_edge g u v w); r = dag_add_edge g1 v u w'
       in fst r = Inl (ValueError v u) \<and> snd r = g1 \<and>
          (\<forall>n. successors (snd r) n = successors g1 n \<and>
               predecessors (snd r) n = predecessors g1 n) \<and>
          (\<forall>a b. get_edge_weight (snd r) a b = get_edge_weight g1 a b)))"
proof -
  have "(u, v) \<in> (edges (add_edge g u v w))\<^sup>*"
    by (simp add: edges_add_edge r_into_rtrancl)
  then have "fst (has_path (add_edge g u v w) u v {})"
    by (simp add: has_path_correct)
  then show ?thesis by (simp add: dag_add_edge_def Let_def)
qed

theorem dag_add_edge_atomic_witness:
  "fst (dag_add_edge shirt_tie ''tie'' ''shirt'' None) \<noteq> Inr () \<and>
   snd (dag_add_edge shirt_tie ''tie'' ''shirt'' None) = shirt_tie \<and>
   fst (dag_add_edge shirt_tie ''tie'' ''jacket'' None) = Inr () \<and>
   dag_add_edge (snd (dag_add_edge shirt_tie ''tie'' ''jacket'' None)) ''jacket'' ''tie'' None =
     (Inl (ValueError ''jacket'' ''tie''), snd (dag_add_edge shirt_tie ''tie'' ''jacket'' None))"
proof -
  have a: "fst (dag_add_edge shirt_tie ''tie'' ''shirt'' None) \<noteq> Inr ()"
    by (simp add: shirt_tie_def eval_ops)
  have b: "fst (dag_add_edge shirt_tie ''tie'' ''jacket'' None) = Inr ()"
    by (simp add: shirt_tie_def eval_ops)
  show ?thesis
    using a b dag_add_edge_atomic[of shirt_tie "''tie''" "''shirt''" None]
      dag_add_edge_atomic[of shirt_tie "''tie''" "''jacket''" None None]
    by (simp add: Let_def prod_eq_iff)
qed

text \<open>
  C5.  \<open>add_node\<close> on a node that is already known changes nothing, neither the adjacency
  nor the stored payload; so a second \<open>add_node(x)\<close>, whatever its payload, gives the state
  the first one gave, and the payload read back is the one of the first call.
\<close>

theorem add_node_known_noop:
  "(known g x \<longrightarrow> add_node g x d = g) \<and>
   add_node (add_node g x d1) x d2 = add_node g x d1 \<and>
   get_node_value (add_node (add_node g x d1) x d2) x = get_node_value (add_node g x d1) x"
proof -
  have "known g x \<Longrightarrow> add_node g x d = g" for g :: "('a, 'b, 'c) digraph" and d
    by (simp add: add_node_def)
  moreover have "known (add_node g x d1) x" by (simp add: known_add_node)
  ultimately show ?thesis by simp
qed

theorem add_node_known_noop_witness:
  "known one_node ''A'' \<and> add_node one_node ''A'' (Some 2) = one_node \<and>
   get_node_value (add_node one_node ''A'' (Some 2)) ''A'' = Some 1"
proof -
  have k: "known one_node ''A''" by (simp add: one_node_def eval_ops)
  have v: "get_node_value one_node ''A'' = Some 1"
    by (simp add: one_node_def get_node_value_def eval_ops)
  show ?thesis using k v add_node_known_noop[of one_node "''A''" "Some 2"] by simp
qed

text \<open>
  C8.  On the diamond built by \<open>add_edge("A","B")\<close>, \<open>add_edge("A","C")\<close>, \<open>add_edge("B","D")\<close>,
  \<open>add_edge("C","D")\<close> from the empty graph, \<open>dfs("A")\<close> yields \<open>B, D, C\<close> and \<open>bfs("A")\<close>
  yields \<open>B, C, D\<close>.
\<close>

theorem diamond_traversals:
  "dfs diamond (Some ''A'') None = [Some ''B'', Some ''D'', Some ''C''] \<and>
   bfs diamond (Some ''A'') = [Some ''B'', Some ''C'', Some ''D'']"
  by (simp add: eval_traversals adj_diamond)

text \<open>
  C9.  When \<open>add_edge(u, v)\<close> is called on a graph in which \<open>v\<close> is already a successor of
  \<open>u\<close>, one more entry \<open>v\<close> is appended to \<open>successors(u)\<close>, which then holds \<open>v\<close> at least
  twice; the weight stored for \<open>(u, v)\<close> is the latest one; and \<open>predecessors(v)\<close> holds
  \<open>u\<close> exactly once.
\<close>

theorem add_edge_again:
  assumes "invar g" "v \<in> set (successors g u)"
  shows "successors (add_edge g u v w) u = successors g u @ [v] \<and>
         2 \<le> count_list (successors (add_edge g u v w) u) v \<and>
         get_edge_weight (add_edge g u v w) u v = w \<and>
         count_list (predecessors (add_edge g u v w) v) u = 1"
proof -
  have s: "successors (add_edge g u v w) u = successors g u @ [v]"
    by (simp add: successors_def adj_get_add_edge)
  from assms(2) have "1 \<le> count_list (successors g u) v"
    by (metis One_nat_def Suc_leI count_list_0_iff neq0_conv)
  then have c: "2 \<le> count_list (successors (add_edge g u v w) u) v" by (simp add: s)
  have w: "get_edge_weight (add_edge g u v w) u v = w"
    by (cases w) (simp_all add: get_edge_weight_def add_edge_def Let_def add_node_def)
  have "distinct (map fst (adj (add_edge g u v w)))"
    using invar_add_edge[OF assms(1), of u v w] by (simp add: invar_def)
  then have p: "count_list (predecessors (add_edge g u v w) v) u = 1"
    by (simp add: predecessors_def count_keys_filter map_of_adj_add_edge)
  from s c w p show ?thesis by simp
qed

theorem add_edge_again_witness:
  "invar a_to_b \<and> ''B'' \<in> set (successors a_to_b ''A'') \<and>
   successors (add_edge a_to_b ''A'' ''B'' (Some 7)) ''A'' = [''B'', ''B''] \<and>
   get_edge_weight a_to_b ''A'' ''B'' = Some 1 \<and>
   get_edge_weight (add_edge a_to_b ''A'' ''B'' (Some 7)) ''A'' ''B'' = Some 7 \<and>
   count_list (predecessors (add_edge a_to_b ''A'' ''B'' (Some 7)) ''B'') ''A'' = 1"
proof -
  have i: "invar a_to_b" by (simp add: a_to_b_def invar_add_edge invar_empty_graph)
  have s: "successors a_to_b ''A'' = [''B'']"
    by (simp add: a_to_b_def successors_def eval_ops)
  have w: "get_edge_weight a_to_b ''A'' ''B'' = Some 1"
    by (simp add: a_to_b_def get_edge_weight_def eval_ops)
  show ?thesis
    using i s w add_edge_again[of a_to_b "''B''" "''A''" "Some 7"] by simp
qed

text \<open>
  C10.  On a graph that is not empty, \<open>dfs(start)\<close> and \<open>bfs(start)\<close> with a \<open>start\<close> that is
  not a known node yield nothing.
\<close>

theorem unknown_start_yields_nothing:
  assumes "adj g \<noteq> []" "\<not> known g (Some s)"
  shows "dfs g (Some s) None = [] \<and> bfs g (Some s) = []"
proof -
  from assms(2) have e: "adj_get g (Some s) = []" by (simp add: known_def adj_get_def)
  then have "dfs g (Some s) None = []"
    by (simp add: dfs_def dfs_gen.simps default_start_def default_visited_def)
  moreover from assms(1) obtain k where "first_key g = Some k"
    by (cases "adj g") auto
  then have "bfs g (Some s) = []" using e by (simp add: bfs_def)
  ultimately show ?thesis by simp
qed

theorem unknown_start_yields_nothing_witness:
  "adj diamond \<noteq> [] \<and> \<not> known diamond (Some ''E'') \<and>
   dfs diamond (Some ''E'') None = [] \<and> bfs diamond (Some ''E'') = []"
proof -
  have a: "adj diamond \<noteq> []" by (simp add: adj_diamond)
  have k: "\<not> known diamond (Some ''E'')" by (simp add: known_def adj_diamond)
  show ?thesis using a k unknown_start_yields_nothing[OF a k] by simp
qed

text \<open>
  C4.  On a graph without a directed cycle, \<open>topsort()\<close> returns a list in which, for every
  edge \<open>(u, v)\<close>, both nodes occur and the index of \<open>u\<close> is strictly less than the index
  of \<open>v\<close>.
\<close>

theorem topsort_respects_edges:
  assumes "\<forall>n. (n, n) \<notin> (edges g)\<^sup>+" "(u, v) \<in> edges g"
  shows "\<exists>i j. position (topsort g) u = Some i \<and> position (topsort g) v = Some j \<and> i < j"
  using assms topsort_order[of g u v] by (simp add: acyclic_def)

theorem topsort_respects_edges_witness:
  "(\<forall>n. (n, n) \<notin> (edges dressed)\<^sup>+) \<and> (''shirt'', ''tie'') \<in> edges dressed \<and>
   position (topsort dressed) ''shirt'' = Some 3 \<and> position (topsort dressed) ''tie'' = Some 5 \<and>
   (\<exists>i j. position (topsort dressed) ''shirt'' = Some i \<and>
          position (topsort dressed) ''tie'' = Some j \<and> i < j)"
proof -
  have a: "\<forall>n. (n, n) \<notin> (edges dressed)\<^sup>+" using acyclic_dressed by (simp add: acyclic_def)
  have e: "(''shirt'', ''tie'') \<in> edges dressed" by (simp add: edges_def adj_get_def adj_dressed)
  have p: "position (topsort dressed) ''shirt'' = Some 3"
    "position (topsort dressed) ''tie'' = Some 5" by (simp_all add: topsort_dressed)
  show ?thesis using a e p topsort_respects_edges[OF a e] by simp
qed

text \<open>
  C6.  On every graph, with or without a directed cycle, \<open>topsort()\<close> returns a list that
  holds every known node exactly once and nothing else.  The graph is any state of the
  adjacency dictionary that the insertions can produce.
\<close>

theorem topsort_lists_every_node:
  "invar g \<Longrightarrow> distinct (topsort g) \<and> set (topsort g) = set (get_nodes g)"
  using topsort_set[of g] by (auto simp: topsort_distinct invar_nodes_of get_nodes_def)

theorem topsort_lists_every_node_witness:
  "invar two_cycle \<and> (''A'', ''A'') \<in> (edges two_cycle)\<^sup>+ \<and>
   topsort two_cycle = [''A'', ''B''] \<and> get_nodes two_cycle = [''A'', ''B''] \<and>
   distinct (topsort two_cycle) \<and> set (topsort two_cycle) = set (get_nodes two_cycle)"
proof -
  have i: "invar two_cycle" by (simp add: two_cycle_def invar_add_edge invar_empty_graph)
  have "(''A'', ''B'') \<in> edges two_cycle" "(''B'', ''A'') \<in> edges two_cycle"
    by (simp_all add: edges_def adj_get_def adj_two_cycle)
  then have c: "(''A'', ''A'') \<in> (edges two_cycle)\<^sup>+" by (rule trancl_trans[OF r_into_trancl r_into_trancl])
  have t: "topsort two_cycle = [''A'', ''B'']"
    by (simp add: topsort_def adj_two_cycle adj_get_def visit.simps)
  have n: "get_nodes two_cycle = [''A'', ''B'']" by (simp add: get_nodes_def adj_two_cycle)
  show ?thesis using i c t n topsort_lists_every_node[OF i] by simp
qed




end
